theory Spec2Isabelle
  imports Main "HOL-Library.Word" "HOL-Library.Sublist"
begin

unbundle bit_operations_syntax

section \<open>UTF-C: the Go encoder and decoder (go/utfc.go)\<close>

text \<open>
  Go's \<open>int\<close> is modelled as \<open>int\<close>: every value the codec computes stays far below
  \<open>2 ^ 63\<close>, so \<open>AND\<close>, \<open>OR\<close>, \<open>XOR\<close>, \<open>push_bit\<close> (\<open><<\<close>) and \<open>drop_bit\<close>
  (\<open>>>\<close>, arithmetic on a signed operand) agree with Go's operators. A \<open>byte\<close> is an
  \<open>8 word\<close>; the conversion \<open>byte(x)\<close> keeps the low eight bits and \<open>int(b)\<close> is
  \<open>uint b\<close>. A Go string is modelled by the list of code points that ranging over
  it yields.
\<close>

type_synonym byte = "8 word"

definition byte :: "int \<Rightarrow> byte" where
  "byte x = word_of_int x"

subsection \<open>Constants and tables\<close>

definition maxLatinCp :: int where "maxLatinCp = 0x02FF"
definition min21BitCp :: int where "min21BitCp = 0x2800"
definition offsMask13Bit :: int where "offsMask13Bit = 0xFFFFFF80"
definition offsMask21Bit :: int where "offsMask21Bit = 0xFFFF8000"
definition markerAux :: int where "markerAux = 0xC0"
definition marker13Bit :: int where "marker13Bit = 0x80"
definition marker21Bit :: int where "marker21Bit = 0xA0"
definition markerExtra :: int where "markerExtra = 0xB0"
definition offsInitAux :: int where "offsInitAux = 0x00C0"

definition auxOffset :: "int \<rightharpoonup> int" where
  "auxOffset = map_of
     [(0x0080, offsInitAux), (0x0380, 0x0391), (0x0400, 0x0410), (0x0580, 0x05BE),
      (0x0530, 0x0531), (0x0600, 0x060B), (0x0900, 0x090D), (0x0980, 0x098F),
      (0x0A00, 0x0A02), (0x0A80, 0x0A8F), (0x0B00, 0x0B0F), (0x0B80, 0x0B8E),
      (0x0C80, 0x0C8E), (0x0D00, 0x0D0E), (0x0D80, 0x0D9B), (0x0E00, 0x0E01),
      (0x0E80, 0x0E81), (0x0F00, 0x0F40), (0x0F80, 0x0F90), (0x1080, 0x10B0),
      (0x3000, 0x3040)]"

text \<open>A range \<open>[]int{lo, hi}\<close> is the pair \<open>(lo, hi)\<close>: \<open>rng[0]\<close> is \<open>fst\<close>, \<open>rng[1]\<close> is \<open>snd\<close>.\<close>

definition rangeHK :: "int \<times> int" where "rangeHK = (0x3000, 0x3100)"

definition rangesLatin :: "(int \<times> int) list" where
  "rangesLatin = [(0x41, 0x5B), (0x61, 0x7B), (0x30, 0x3A), (0x20, 0x21), (0x2D, 0x2C)]"

definition rangesExtra :: "(int \<times> int) list" where
  "rangesExtra = [(0x2000, 0x2800), rangeHK, (0xFE00, 0xFE10),
                  (0x1F170, 0x1F200), (0x1F300, 0x1F700), (0x1F900, 0x1FA00)]"

subsection \<open>Range helpers\<close>

fun inRanges :: "int \<Rightarrow> (int \<times> int) list \<Rightarrow> bool" where
  "inRanges cp [] = False"
| "inRanges cp (rng # ranges) =
     (if fst rng \<le> cp \<and> cp < snd rng then True else inRanges cp ranges)"

text \<open>The loop of \<open>encodeRanges\<close>, with its running sum \<open>v\<close>.\<close>

fun encodeRanges_from :: "int \<Rightarrow> int \<Rightarrow> (int \<times> int) list \<Rightarrow> int" where
  "encodeRanges_from v cp [] = -1"
| "encodeRanges_from v cp (rng # ranges) =
     (if fst rng \<le> cp \<and> cp < snd rng then v + (cp - fst rng)
      else encodeRanges_from (v + (snd rng - fst rng)) cp ranges)"

definition encodeRanges :: "int \<Rightarrow> (int \<times> int) list \<Rightarrow> int" where
  "encodeRanges cp ranges = encodeRanges_from 0 cp ranges"

fun decodeRanges :: "int \<Rightarrow> (int \<times> int) list \<Rightarrow> int" where
  "decodeRanges v [] = -1"
| "decodeRanges v (rng # ranges) =
     (if v < snd rng - fst rng then fst rng + v
      else decodeRanges (v - (snd rng - fst rng)) ranges)"

definition getAuxOffset :: "int \<Rightarrow> int" where
  "getAuxOffset offs = (case auxOffset offs of Some remappedOffs \<Rightarrow> remappedOffs | None \<Rightarrow> offs)"

subsection \<open>Codec state\<close>

record state =
  offs :: int
  auxOffs :: int
  is21Bit :: bool

definition init_state :: state where
  "init_state = \<lparr>offs = 0, auxOffs = offsInitAux, is21Bit = False\<rparr>"

subsection \<open>Encode\<close>

text \<open>
  One iteration of the loop of \<open>Encode\<close> for the code point \<open>cp\<close>: the bytes appended
  to \<open>buf\<close> and the state after the iteration.
\<close>

definition encode_step :: "state \<Rightarrow> int \<Rightarrow> byte list \<times> state" where
  "encode_step st cp =
    (if auxOffs st = 0 \<and> inRanges cp rangesLatin then
       ([byte (markerAux OR encodeRanges cp rangesLatin)], st)
     else if auxOffs st \<noteq> 0 \<and> cp \<ge> auxOffs st \<and> cp \<le> auxOffs st + 0x3F then
       ([byte (markerAux OR (cp - auxOffs st))], st)
     else if inRanges cp rangesExtra then
       (let newOffs = cp AND offsMask13Bit in
        if \<not> is21Bit st \<and> newOffs = offs st then
          ([byte (cp AND 0x7F)], st)
        else
          (let extra = encodeRanges cp rangesExtra;
               out = [byte (markerExtra OR (1 + drop_bit 8 extra)), byte extra]
           in if cp \<ge> fst rangeHK \<and> cp < snd rangeHK then
                (out, \<lparr>offs = newOffs, auxOffs = getAuxOffset (offs st), is21Bit = False\<rparr>)
              else (out, st)))
     else if cp \<ge> min21BitCp then
       (let cp' = cp - min21BitCp;
            newOffs = cp' AND offsMask21Bit
        in if is21Bit st \<and> newOffs = offs st then
             ([byte (drop_bit 8 cp' AND 0x7F), byte cp'], st)
           else
             ([byte (marker21Bit OR drop_bit 16 cp'), byte (drop_bit 8 cp'), byte cp'],
              \<lparr>offs = newOffs, auxOffs = offs st, is21Bit = True\<rparr>))
     else
       (let newOffs = cp AND offsMask13Bit in
        if \<not> is21Bit st \<and> newOffs = offs st then
          ([byte (cp AND 0x7F)], st)
        else
          ([byte (marker13Bit OR drop_bit 8 cp), byte (cp AND 0xFF)],
           \<lparr>offs = (if cp \<le> maxLatinCp then 0 else newOffs),
            auxOffs = getAuxOffset (offs st), is21Bit = False\<rparr>)))"

text \<open>The loop: \<open>buf\<close> grows by \<open>append\<close>, the state is threaded through.\<close>

fun encode_loop :: "state \<Rightarrow> byte list \<Rightarrow> int list \<Rightarrow> byte list \<times> state" where
  "encode_loop st buf [] = (buf, st)"
| "encode_loop st buf (cp # str) =
     (case encode_step st cp of (out, st') \<Rightarrow> encode_loop st' (buf @ out) str)"

definition Encode :: "int list \<Rightarrow> byte list" where
  "Encode str = fst (encode_loop init_state [] str)"

subsection \<open>Decode\<close>

text \<open>
  Reading \<open>buf[i]\<close> past the end of the slice is a run-time panic in Go; the model
  returns it as an error value.
\<close>

datatype error = IndexOutOfRange

text \<open>
  The conversion \<open>string(rune(cp))\<close>: \<open>rune\<close> is \<open>int32\<close>, and a rune that is not a
  Unicode scalar value is converted to the replacement character U+FFFD.
\<close>

definition rune :: "int \<Rightarrow> int" where
  "rune cp = signed_take_bit 31 cp"

definition string_of_rune :: "int \<Rightarrow> int" where
  "string_of_rune r =
     (if 0 \<le> r \<and> r \<le> 0x10FFFF \<and> \<not> (0xD800 \<le> r \<and> r \<le> 0xDFFF) then r else 0xFFFD)"

text \<open>
  One iteration of the loop of \<open>Decode\<close>: \<open>b\<close> is the byte \<open>buf[i]\<close> read first,
  \<open>rest\<close> the bytes after it. The result is the code point, the state after the
  iteration and how many bytes of \<open>rest\<close> were consumed.
\<close>

definition decode_step :: "state \<Rightarrow> byte \<Rightarrow> byte list \<Rightarrow> error + (int \<times> state \<times> nat)" where
  "decode_step st b rest =
    (let cp = uint b in
     if cp AND markerAux = markerAux then
       Inr (if auxOffs st = 0 then decodeRanges (cp XOR markerAux) rangesLatin
            else auxOffs st + (cp XOR markerAux), st, 0)
     else if cp AND markerExtra = markerExtra then
       (case rest of
          [] \<Rightarrow> Inl IndexOutOfRange
        | b2 # _ \<Rightarrow>
            (let cp' = decodeRanges (push_bit 8 (cp XOR markerExtra) OR uint b2) rangesExtra
             in Inr (cp',
                     if cp' \<ge> fst rangeHK \<and> cp' < snd rangeHK then
                       \<lparr>offs = cp' AND offsMask13Bit, auxOffs = getAuxOffset (offs st),
                        is21Bit = False\<rparr>
                     else st, 1)))
     else if cp AND marker21Bit = marker21Bit then
       (case rest of
          b2 # b3 # _ \<Rightarrow>
            (let cp' = push_bit 16 (cp XOR marker21Bit) OR push_bit 8 (uint b2) OR uint b3
             in Inr (cp' + min21BitCp,
                     \<lparr>offs = cp' AND offsMask21Bit, auxOffs = offs st, is21Bit = True\<rparr>, 2))
        | _ \<Rightarrow> Inl IndexOutOfRange)
     else if cp AND marker13Bit = marker13Bit then
       (case rest of
          [] \<Rightarrow> Inl IndexOutOfRange
        | b2 # _ \<Rightarrow>
            (let cp' = push_bit 8 (cp XOR marker13Bit) OR uint b2
             in Inr (cp',
                     \<lparr>offs = (if cp' \<le> maxLatinCp then 0 else cp' AND offsMask13Bit),
                      auxOffs = getAuxOffset (offs st), is21Bit = False\<rparr>, 1)))
     else if is21Bit st then
       (case rest of
          [] \<Rightarrow> Inl IndexOutOfRange
        | b2 # _ \<Rightarrow> Inr (min21BitCp + (offs st OR push_bit 8 cp OR uint b2), st, 1))
     else Inr (offs st OR cp, st, 0))"

text \<open>The loop: \<open>str\<close> grows by one converted rune per iteration.\<close>

fun decode_loop :: "state \<Rightarrow> int list \<Rightarrow> byte list \<Rightarrow> error + (int list \<times> state)" where
  "decode_loop st str [] = Inr (str, st)"
| "decode_loop st str (b # rest) =
     (case decode_step st b rest of
        Inl e \<Rightarrow> Inl e
      | Inr (cp, st', n) \<Rightarrow> decode_loop st' (str @ [string_of_rune (rune cp)]) (drop n rest))"

definition Decode :: "byte list \<Rightarrow> error + int list" where
  "Decode buf = (case decode_loop init_state [] buf of Inl e \<Rightarrow> Inl e | Inr (str, st) \<Rightarrow> Inr str)"


text \<open>
  How many bytes after the leading byte \<open>b\<close> an iteration of \<open>Decode\<close> reads in the
  state \<open>st\<close>: none for the auxiliary alphabet, \<open>buf[i]\<close> for the extra ranges, the
  13-bit switch and the current window in 21-bit mode, \<open>buf[i]\<close> and \<open>buf[i+1]\<close> for
  the 21-bit switch. The tests are those of the loop, in its order.
\<close>

definition continuation_bytes :: "state \<Rightarrow> byte \<Rightarrow> nat" where
  "continuation_bytes st b =
    (let cp = uint b in
     if cp AND markerAux = markerAux then 0
     else if cp AND markerExtra = markerExtra then 1
     else if cp AND marker21Bit = marker21Bit then 2
     else if cp AND marker13Bit = marker13Bit then 1
     else if is21Bit st then 1
     else 0)"

section \<open>Properties of the encoder\<close>

subsection \<open>Bit-level facts\<close>

lemma mask13_shape: "(0xFFFFFF80::int) = push_bit 7 (mask 25)"
  by (simp add: mask_eq_exp_minus_1 push_bit_eq_mult)

lemma and_mask13_small:
  assumes "0 \<le> cp" "cp < 128"
  shows "cp AND offsMask13Bit = (0::int)"
proof -
  have "take_bit 7 cp = cp"
    using assms by (simp add: take_bit_int_eq_self)
  then have "cp AND push_bit 7 (mask 25) = take_bit 7 cp AND push_bit 7 (mask 25)"
    by simp
  also have "\<dots> = 0"
    by (rule bit_eqI) (auto simp add: bit_simps)
  finally show ?thesis
    by (simp add: offsMask13Bit_def mask13_shape)
qed

lemma and_7F_small:
  assumes "0 \<le> cp" "cp < 128"
  shows "cp AND 0x7F = (cp::int)"
proof -
  have "(0x7F::int) = mask 7" by (simp add: mask_eq_exp_minus_1)
  then have "cp AND 0x7F = take_bit 7 cp" by (simp add: take_bit_eq_mask)
  then show ?thesis using assms by (simp add: take_bit_int_eq_self)
qed

lemma below_extra: "cp < 0x2000 \<Longrightarrow> \<not> inRanges cp rangesExtra"
  by (simp add: rangesExtra_def rangeHK_def)

subsection \<open>The loop of Encode\<close>

lemma encode_step_length: "length (fst (encode_step st cp)) \<le> 3"
  by (simp add: encode_step_def Let_def)

lemma encode_loop_length:
  "length (fst (encode_loop st buf str)) \<le> length buf + 3 * length str"
proof (induction str arbitrary: st buf)
  case Nil
  show ?case by simp
next
  case (Cons cp str)
  obtain out st' where step: "encode_step st cp = (out, st')"
    by (cases "encode_step st cp")
  have "length out \<le> 3"
    using encode_step_length [of st cp] step by simp
  moreover have "length (fst (encode_loop st' (buf @ out) str)) \<le> length (buf @ out) + 3 * length str"
    by (rule Cons.IH)
  ultimately show ?case
    using step by simp
qed

lemma encode_loop_append:
  "encode_loop st buf (u @ v) =
     (case encode_loop st buf u of (buf', st') \<Rightarrow> encode_loop st' buf' v)"
  by (induction u arbitrary: st buf) (simp_all split: prod.splits)

lemma encode_loop_extends: "prefix buf (fst (encode_loop st buf str))"
proof (induction str arbitrary: st buf)
  case Nil
  show ?case by simp
next
  case (Cons cp str)
  obtain out st' where step: "encode_step st cp = (out, st')"
    by (cases "encode_step st cp")
  have "prefix (buf @ out) (fst (encode_loop st' (buf @ out) str))"
    by (rule Cons.IH)
  then have "prefix buf (fst (encode_loop st' (buf @ out) str))"
    by (rule append_prefixD)
  then show ?case using step by simp
qed

subsection \<open>ASCII input\<close>

lemma encode_step_ascii:
  assumes "0 \<le> cp" "cp \<le> 0x7F"
  shows "encode_step init_state cp = ([byte cp], init_state)"
proof -
  have "cp AND offsMask13Bit = 0" "cp AND 0x7F = cp"
    using assms by (simp_all add: and_mask13_small and_7F_small)
  moreover have "\<not> inRanges cp rangesExtra"
    using assms by (simp add: below_extra)
  ultimately show ?thesis
    using assms
    by (simp add: encode_step_def init_state_def offsInitAux_def min21BitCp_def)
qed

lemma encode_loop_ascii:
  assumes "\<forall>cp \<in> set s. 0 \<le> cp \<and> cp \<le> 0x7F"
  shows "encode_loop init_state buf s = (buf @ map byte s, init_state)"
  using assms by (induction s arbitrary: buf) (simp_all add: encode_step_ascii)

text \<open>
  C2 (ASCII identity). A string all of whose code points lie in U+0000..U+007F is
  encoded to its own bytes: \<open>Encode\<close> starts with \<open>auxOffs = 0xC0\<close> and
  \<open>offs = 0\<close>, so every such code point takes the one-byte branch of the current
  window and leaves the state as it is. The strings over U+0001..U+001F and U+007F
  are a special case.
\<close>

theorem Encode_ascii_identity:
  assumes "\<forall>cp \<in> set s. 0 \<le> cp \<and> cp \<le> 0x7F"
  shows "Encode s = map byte s"
  using assms by (simp add: Encode_def encode_loop_ascii)

theorem Encode_ascii_identity_witness:
  "Encode [0x48, 0x69, 0x21, 0x01, 0x1F, 0x7F, 0x2D, 0x00]
     = [0x48, 0x69, 0x21, 0x01, 0x1F, 0x7F, 0x2D, 0x00]"
  using Encode_ascii_identity [of "[0x48, 0x69, 0x21, 0x01, 0x1F, 0x7F, 0x2D, 0x00]"]
  by (simp add: byte_def)

text \<open>
  C6 (size bound). \<open>Encode\<close> emits at most three bytes for each code point of its
  input.
\<close>

theorem Encode_size_bound: "length (Encode s) \<le> 3 * length s"
  using encode_loop_length [of init_state "[]" s] by (simp add: Encode_def)

theorem Encode_size_bound_witness:
  "length (Encode [0x10000, 0x41F, 0x41]) \<le> 9"
  using Encode_size_bound [of "[0x10000, 0x41F, 0x41]"] by simp

text \<open>
  C7 (append-only). The bytes encoded for \<open>u\<close> are a prefix of the bytes encoded for
  \<open>u @ v\<close>: later input never changes bytes already emitted.
\<close>

theorem Encode_append_only: "prefix (Encode u) (Encode (u @ v))"
proof -
  obtain buf' st' where u: "encode_loop init_state [] u = (buf', st')"
    by (cases "encode_loop init_state [] u")
  have "Encode (u @ v) = fst (encode_loop st' buf' v)"
    by (simp add: Encode_def encode_loop_append u)
  moreover have "Encode u = buf'"
    by (simp add: Encode_def u)
  ultimately show ?thesis
    by (simp add: encode_loop_extends)
qed

theorem Encode_append_only_witness:
  "prefix (Encode [0x41F, 0x440]) (Encode ([0x41F, 0x440] @ [0x41, 0x1F600]))"
  using Encode_append_only [of "[0x41F, 0x440]" "[0x41, 0x1F600]"] by simp


subsection \<open>The Latin remap\<close>

lemma aux_byte_range: "0xC0 \<le> byte (markerAux OR i)"
proof -
  have "byte (markerAux OR i) = 0xC0 OR byte i"
    by (simp add: byte_def markerAux_def of_int_or_eq)
  then show ?thesis
    by (simp add: le_word_or2)
qed

lemma byte_le_FF: "(b::byte) \<le> 0xFF"
proof -
  have "uint b < 2 ^ 8"
    using uint_lt2p [of b] by simp
  then show ?thesis
    by (simp add: word_le_def)
qed

lemma latin_inRanges:
  assumes "cp \<in> {0x41..0x5A} \<union> {0x61..0x7A} \<union> {0x30..0x39} \<union> {0x20}"
  shows "inRanges cp rangesLatin"
  using assms by (auto simp add: rangesLatin_def)

lemma encode_step_latin:
  assumes "auxOffs st = 0"
    and "cp \<in> {0x41..0x5A} \<union> {0x61..0x7A} \<union> {0x30..0x39} \<union> {0x20}"
  shows "encode_step st cp = ([byte (markerAux OR encodeRanges cp rangesLatin)], st)"
  using assms(1) latin_inRanges [OF assms(2)] by (simp add: encode_step_def)

lemma encode_loop_latin:
  assumes "auxOffs st = 0"
    and "\<forall>cp \<in> set s. cp \<in> {0x41..0x5A} \<union> {0x61..0x7A} \<union> {0x30..0x39} \<union> {0x20}"
  shows "encode_loop st buf s =
           (buf @ map (\<lambda>cp. byte (markerAux OR encodeRanges cp rangesLatin)) s, st)"
  using assms by (induction s arbitrary: buf) (simp_all add: encode_step_latin)

lemma latin_values:
  "byte (markerAux OR encodeRanges 0x41 rangesLatin) = 0xC0"
  "byte (markerAux OR encodeRanges 0x5A rangesLatin) = 0xD9"
  "byte (markerAux OR encodeRanges 0x61 rangesLatin) = 0xDA"
  "byte (markerAux OR encodeRanges 0x7A rangesLatin) = 0xF3"
  "byte (markerAux OR encodeRanges 0x30 rangesLatin) = 0xF4"
  "byte (markerAux OR encodeRanges 0x39 rangesLatin) = 0xFD"
  "byte (markerAux OR encodeRanges 0x20 rangesLatin) = 0xFE"
  by (simp_all add: byte_def markerAux_def encodeRanges_def rangesLatin_def)

text \<open>
  C3, as stated, fails: \<open>Encode\<close> starts with \<open>auxOffs = 0xC0\<close>, not \<open>0\<close>, so the
  Latin remap is not active at the start and the text "A" is encoded to the raw
  ASCII byte \<open>0x41\<close>, not to \<open>0xC0\<close>.
\<close>

theorem latin_remap_not_initial:
  "Encode [0x41] = [0x41] \<and> \<not> (\<forall>b \<in> set (Encode [0x41]). 0xC0 \<le> b)"
  by code_simp

text \<open>
  C3, amended. While the auxiliary alphabet is the Latin remap (\<open>auxOffs = 0\<close>, as
  after a 13-bit switch out of the Latin window), a text over A-Z, a-z, 0-9 and
  space is encoded to one byte in \<open>0xC0..0xFF\<close> per code point and leaves the state
  as it is; there "A" gives \<open>0xC0\<close>, "Z" \<open>0xD9\<close>, "a" \<open>0xDA\<close>, "z" \<open>0xF3\<close>,
  "0" \<open>0xF4\<close>, "9" \<open>0xFD\<close> and " " \<open>0xFE\<close>.
\<close>

theorem latin_remap_aux:
  assumes "auxOffs st = 0"
    and "\<forall>cp \<in> set s. cp \<in> {0x41..0x5A} \<union> {0x61..0x7A} \<union> {0x30..0x39} \<union> {0x20}"
  shows "(\<forall>b \<in> set (fst (encode_loop st [] s)). 0xC0 \<le> b \<and> b \<le> 0xFF) \<and>
         length (fst (encode_loop st [] s)) = length s \<and>
         snd (encode_loop st [] s) = st \<and>
         fst (encode_loop st [] [0x41]) = [0xC0] \<and>
         fst (encode_loop st [] [0x5A]) = [0xD9] \<and>
         fst (encode_loop st [] [0x61]) = [0xDA] \<and>
         fst (encode_loop st [] [0x7A]) = [0xF3] \<and>
         fst (encode_loop st [] [0x30]) = [0xF4] \<and>
         fst (encode_loop st [] [0x39]) = [0xFD] \<and>
         fst (encode_loop st [] [0x20]) = [0xFE]"
proof -
  have "\<forall>b \<in> set (fst (encode_loop st [] s)). 0xC0 \<le> b \<and> b \<le> 0xFF"
    using assms by (simp add: encode_loop_latin aux_byte_range byte_le_FF)
  moreover have "length (fst (encode_loop st [] s)) = length s" "snd (encode_loop st [] s) = st"
    using assms by (simp_all add: encode_loop_latin)
  moreover have "fst (encode_loop st [] [0x41]) = [0xC0]" "fst (encode_loop st [] [0x5A]) = [0xD9]"
    "fst (encode_loop st [] [0x61]) = [0xDA]" "fst (encode_loop st [] [0x7A]) = [0xF3]"
    "fst (encode_loop st [] [0x30]) = [0xF4]" "fst (encode_loop st [] [0x39]) = [0xFD]"
    "fst (encode_loop st [] [0x20]) = [0xFE]"
    using assms(1) by (simp_all add: encode_step_latin latin_values)
  ultimately show ?thesis by simp
qed

theorem latin_remap_aux_witness:
  "snd (encode_step init_state 0x100) = \<lparr>offs = 0, auxOffs = 0, is21Bit = False\<rparr> \<and>
   list_all (\<lambda>b. 0xC0 \<le> b \<and> b \<le> 0xFF)
     (fst (encode_loop \<lparr>offs = 0, auxOffs = 0, is21Bit = False\<rparr> [] [0x48, 0x69, 0x20, 0x39])) \<and>
   length (fst (encode_loop \<lparr>offs = 0, auxOffs = 0, is21Bit = False\<rparr> [] [0x48, 0x69, 0x20, 0x39])) = 4"
proof -
  have reach: "snd (encode_step init_state 0x100) = \<lparr>offs = 0, auxOffs = 0, is21Bit = False\<rparr>"
    by code_simp
  have aux: "auxOffs \<lparr>offs = 0, auxOffs = 0, is21Bit = False\<rparr> = 0"
    by simp
  have latin: "\<forall>cp \<in> set [0x48, 0x69, 0x20, 0x39::int].
                 cp \<in> {0x41..0x5A} \<union> {0x61..0x7A} \<union> {0x30..0x39} \<union> {0x20}"
    by simp
  from latin_remap_aux [OF aux latin] reach show ?thesis
    by (simp add: list_all_iff)
qed


subsection \<open>The 21-bit switch and its leading byte\<close>

lemma shift21_shape:
  assumes "fst (encode_step st cp) = [b1, b2, b3]"
  shows "min21BitCp \<le> cp \<and> b1 = byte (marker21Bit OR drop_bit 16 (cp - min21BitCp)) \<and>
         b2 = byte (drop_bit 8 (cp - min21BitCp)) \<and> b3 = byte (cp - min21BitCp)"
  using assms by (auto simp add: encode_step_def Let_def split: if_splits)

lemma lead21_range:
  assumes "0 \<le> k" "k \<le> 16"
  shows "0xA0 \<le> byte (marker21Bit OR k) \<and> byte (marker21Bit OR k) \<le> 0xB0 \<and>
         (byte (marker21Bit OR k) = 0xB0 \<longleftrightarrow> k = 16)"
proof -
  from assms have "k \<in> {0, 1, 2, 3, 4, 5, 6, 7, 8, 9, 10, 11, 12, 13, 14, 15, 16}"
    by simp presburger
  then show ?thesis
    by (auto simp add: byte_def marker21Bit_def)
qed

lemma lead21_classify:
  assumes "0 \<le> k" "k \<le> 15"
  shows "uint (byte (marker21Bit OR k)) AND markerAux \<noteq> markerAux \<and>
         uint (byte (marker21Bit OR k)) AND markerExtra \<noteq> markerExtra \<and>
         uint (byte (marker21Bit OR k)) AND marker21Bit = marker21Bit \<and>
         uint (byte (marker21Bit OR k)) XOR marker21Bit = k"
proof -
  from assms have "k \<in> {0, 1, 2, 3, 4, 5, 6, 7, 8, 9, 10, 11, 12, 13, 14, 15}"
    by simp presburger
  then show ?thesis
    by (auto simp add: byte_def marker21Bit_def markerAux_def markerExtra_def)
qed

lemma reassemble21:
  "push_bit 16 (drop_bit 16 v) OR push_bit 8 (uint (byte (drop_bit 8 v))) OR uint (byte v) = v"
proof (rule bit_eqI)
  fix n :: nat
  consider "n < 8" | "8 \<le> n" "n < 16" | "16 \<le> n"
    by linarith
  then show "bit (push_bit 16 (drop_bit 16 v) OR push_bit 8 (uint (byte (drop_bit 8 v)))
                   OR uint (byte v)) n \<longleftrightarrow> bit v n"
    by cases (auto simp add: byte_def uint_word_of_int_eq bit_simps)
qed

lemma drop16_bounds:
  assumes "0 \<le> v" "v \<le> 0x10D7FF"
  shows "0 \<le> drop_bit 16 (v::int) \<and> drop_bit 16 v \<le> 16 \<and>
         (drop_bit 16 v = 16 \<longleftrightarrow> 0x100000 \<le> v)"
  using assms by (auto simp add: drop_bit_eq_div)

text \<open>
  C4, as stated, fails: for U+102800 the 21-bit switch emits the leading byte
  \<open>0xA0 OR 0x10 = 0xB0\<close>, whose top nibble is \<open>1011\<close>, and the decoder takes that
  byte for the extra ranges, reading one more byte instead of two.
\<close>

theorem switch21_emits_B0:
  "encode_step init_state 0x102800
     = ([0xB0, 0x00, 0x00], \<lparr>offs = 0x100000, auxOffs = 0, is21Bit = True\<rparr>) \<and>
   (0xB0::byte) \<in> {0xB0..0xBF} \<and>
   decode_step init_state 0xB0 [0x00, 0x00] = Inr (0x2000, init_state, 1)"
  by code_simp

text \<open>
  C4, amended. When the encoder emits three bytes for a code point
  \<open>cp \<le> 0x10FFFF\<close> (the 21-bit switch), the leading byte lies in \<open>0xA0..0xB0\<close> and is
  \<open>0xB0\<close> exactly when \<open>cp \<ge> 0x102800\<close>. For \<open>cp < 0x102800\<close> it lies in
  \<open>0xA0..0xAF\<close>, and the decoder, in any state, takes the three bytes as a 21-bit
  switch and returns \<open>cp\<close>.
\<close>

theorem shift21_lead:
  assumes "0 \<le> cp" "cp \<le> 0x10FFFF" and "fst (encode_step st cp) = [b1, b2, b3]"
  shows "0xA0 \<le> b1 \<and> b1 \<le> 0xB0 \<and> (b1 = 0xB0 \<longleftrightarrow> 0x102800 \<le> cp) \<and>
         (cp < 0x102800 \<longrightarrow>
            decode_step st0 b1 (b2 # b3 # rest) =
              Inr (cp, \<lparr>offs = (cp - min21BitCp) AND offsMask21Bit, auxOffs = offs st0,
                        is21Bit = True\<rparr>, 2))"
proof -
  define v where "v = cp - min21BitCp"
  define k where "k = drop_bit 16 v"
  from shift21_shape [OF assms(3)]
  have ge: "min21BitCp \<le> cp" and b1: "b1 = byte (marker21Bit OR k)"
    and b2: "b2 = byte (drop_bit 8 v)" and b3: "b3 = byte v"
    by (simp_all add: v_def k_def)
  have v: "0 \<le> v" "v \<le> 0x10D7FF"
    using ge assms(2) by (simp_all add: v_def min21BitCp_def)
  from drop16_bounds [OF v]
  have k: "0 \<le> k" "k \<le> 16" and k16: "k = 16 \<longleftrightarrow> 0x100000 \<le> v"
    by (simp_all add: k_def)
  have lead: "0xA0 \<le> b1 \<and> b1 \<le> 0xB0 \<and> (b1 = 0xB0 \<longleftrightarrow> 0x102800 \<le> cp)"
    using lead21_range [OF k] k16 by (auto simp add: b1 v_def min21BitCp_def)
  have dec: "decode_step st0 b1 (b2 # b3 # rest) =
              Inr (cp, \<lparr>offs = (cp - min21BitCp) AND offsMask21Bit, auxOffs = offs st0,
                        is21Bit = True\<rparr>, 2)" if "cp < 0x102800"
  proof -
    from that k16 k have "k \<le> 15"
      by (simp add: v_def min21BitCp_def)
    from lead21_classify [OF k(1) this]
    have cls: "uint b1 AND markerAux \<noteq> markerAux" "uint b1 AND markerExtra \<noteq> markerExtra"
      "uint b1 AND marker21Bit = marker21Bit" "uint b1 XOR marker21Bit = k"
      by (simp_all add: b1)
    have "push_bit 16 k OR push_bit 8 (uint b2) OR uint b3 = v"
      unfolding k_def b2 b3 by (rule reassemble21)
    with cls show ?thesis
      by (simp add: decode_step_def Let_def v_def)
  qed
  from lead dec show ?thesis by blast
qed

theorem shift21_lead_witness:
  "fst (encode_step init_state 0x10000) = [0xA0, 0xD8, 0x00] \<and>
   decode_step init_state 0xA0 [0xD8, 0x00]
     = Inr (0x10000, \<lparr>offs = 0x8000, auxOffs = 0, is21Bit = True\<rparr>, 2)"
proof -
  have out: "fst (encode_step init_state 0x10000) = [0xA0, 0xD8, 0x00]"
    by code_simp
  have lo: "(0::int) \<le> 0x10000" and hi: "(0x10000::int) \<le> 0x10FFFF"
    by simp_all
  have offs: "(0x10000 - min21BitCp) AND offsMask21Bit = 0x8000" "offs init_state = 0"
    by (simp_all add: min21BitCp_def offsMask21Bit_def init_state_def)
  from shift21_lead [OF lo hi out, where ?st0.0 = init_state and rest = "[]"] out offs
  show ?thesis by simp
qed

section \<open>State changes\<close>

text \<open>
  C5, as stated, fails: from the initial state the code point U+0100 is emitted by a
  13-bit switch, which changes the state (\<open>auxOffs\<close> becomes \<open>0\<close>) and leaves
  \<open>offs = 0\<close>, while \<open>0x100 AND 0xFFFFFF80 = 0x100\<close>. The decoder does the same on
  the two bytes emitted.
\<close>

theorem offs_latin_window:
  "encode_step init_state 0x100
     = ([0x81, 0x00], \<lparr>offs = 0, auxOffs = 0, is21Bit = False\<rparr>) \<and>
   decode_step init_state 0x81 [0x00]
     = Inr (0x100, \<lparr>offs = 0, auxOffs = 0, is21Bit = False\<rparr>, 1) \<and>
   \<lparr>offs = 0, auxOffs = 0, is21Bit = False\<rparr> \<noteq> init_state \<and>
   offs \<lparr>offs = 0, auxOffs = 0, is21Bit = False\<rparr> \<noteq> 0x100 AND offsMask13Bit"
  by code_simp

text \<open>
  C5, amended. In \<open>Encode\<close> and in \<open>Decode\<close>, whenever an iteration for the code
  point \<open>cp\<close> changes the state, the new \<open>offs\<close> is
  \<open>(cp - 0x2800) AND 0xFFFF8000\<close> if the new state is in 21-bit mode; otherwise it
  is \<open>0\<close> for \<open>cp \<le> 0x02FF\<close> (extended Latin stays on the Latin window) and
  \<open>cp AND 0xFFFFFF80\<close> for every other \<open>cp\<close>.
\<close>

theorem offs_after_state_change:
  "(encode_step st cp = (out, st') \<and> st' \<noteq> st \<longrightarrow>
      offs st' = (if is21Bit st' then (cp - min21BitCp) AND offsMask21Bit
                  else if cp \<le> maxLatinCp then 0 else cp AND offsMask13Bit)) \<and>
   (decode_step st b rest = Inr (cp2, st2, n) \<and> st2 \<noteq> st \<longrightarrow>
      offs st2 = (if is21Bit st2 then (cp2 - min21BitCp) AND offsMask21Bit
                  else if cp2 \<le> maxLatinCp then 0 else cp2 AND offsMask13Bit))"
proof (intro conjI impI)
  assume "encode_step st cp = (out, st') \<and> st' \<noteq> st"
  then show "offs st' = (if is21Bit st' then (cp - min21BitCp) AND offsMask21Bit
                         else if cp \<le> maxLatinCp then 0 else cp AND offsMask13Bit)"
    by (auto simp add: encode_step_def Let_def rangeHK_def maxLatinCp_def
        split: if_splits)
next
  assume "decode_step st b rest = Inr (cp2, st2, n) \<and> st2 \<noteq> st"
  then show "offs st2 = (if is21Bit st2 then (cp2 - min21BitCp) AND offsMask21Bit
                         else if cp2 \<le> maxLatinCp then 0 else cp2 AND offsMask13Bit)"
    by (auto simp add: decode_step_def Let_def rangeHK_def maxLatinCp_def min21BitCp_def
        split: if_splits list.splits)
qed

theorem offs_after_state_change_witness:
  "offs (snd (encode_step init_state 0x41F)) = 0x400 \<and>
   offs (fst (snd (projr (decode_step init_state 0xA0 [0xD8, 0x00])))) = 0x8000"
proof -
  have enc: "encode_step init_state 0x41F
               = ([0x84, 0x1F], \<lparr>offs = 0x400, auxOffs = 0, is21Bit = False\<rparr>)"
    by code_simp
  have dec: "decode_step init_state 0xA0 [0xD8, 0x00]
               = Inr (0x10000, \<lparr>offs = 0x8000, auxOffs = 0, is21Bit = True\<rparr>, 2)"
    by code_simp
  have ne: "\<lparr>offs = 0x400, auxOffs = 0, is21Bit = False\<rparr> \<noteq> init_state"
    "\<lparr>offs = 0x8000, auxOffs = 0, is21Bit = True\<rparr> \<noteq> init_state"
    by (simp_all add: init_state_def)
  from offs_after_state_change [of init_state "0x41F" "[0x84, 0x1F]"
      "\<lparr>offs = 0x400, auxOffs = 0, is21Bit = False\<rparr>" "0xA0" "[0xD8, 0x00]" "0x10000"
      "\<lparr>offs = 0x8000, auxOffs = 0, is21Bit = True\<rparr>" 2] enc dec ne
  show ?thesis by simp
qed

text \<open>
  C8 (frame property of the extra ranges). A code point of the extra ranges outside
  \<open>[0x3000, 0x3100)\<close> leaves \<open>offs\<close>, \<open>auxOffs\<close> and \<open>is21Bit\<close> as they are when it
  is encoded, in particular when it is emitted as the two-byte sequence of the extra
  ranges; and when the decoder reads a leading byte of the extra ranges and the code
  point it decodes lies outside \<open>[0x3000, 0x3100)\<close>, the state is unchanged as well.
  So within the extra ranges only a code point in \<open>[0x3000, 0x3100)\<close> alters the
  state.
\<close>

theorem extra_frame:
  "(inRanges cp rangesExtra \<and> encode_step st cp = (out, st') \<and>
      \<not> (fst rangeHK \<le> cp \<and> cp < snd rangeHK) \<longrightarrow> st' = st) \<and>
   (uint b AND markerAux \<noteq> markerAux \<and> uint b AND markerExtra = markerExtra \<and>
      decode_step st b rest = Inr (cp2, st2, n) \<and>
      \<not> (fst rangeHK \<le> cp2 \<and> cp2 < snd rangeHK) \<longrightarrow> st2 = st \<and> n = 1)"
proof (intro conjI impI)
  assume "inRanges cp rangesExtra \<and> encode_step st cp = (out, st') \<and>
      \<not> (fst rangeHK \<le> cp \<and> cp < snd rangeHK)"
  then show "st' = st"
    by (auto simp add: encode_step_def Let_def split: if_splits)
next
  assume dec: "uint b AND markerAux \<noteq> markerAux \<and> uint b AND markerExtra = markerExtra \<and>
      decode_step st b rest = Inr (cp2, st2, n) \<and>
      \<not> (fst rangeHK \<le> cp2 \<and> cp2 < snd rangeHK)"
  then show "st2 = st"
    by (auto simp add: decode_step_def Let_def split: if_splits list.splits)
  from dec show "n = 1"
    by (auto simp add: decode_step_def Let_def split: if_splits list.splits)
qed

theorem extra_frame_witness:
  "encode_step init_state 0x1F600 = ([0xBD, 0xA0], init_state) \<and>
   decode_step init_state 0xBD [0xA0] = Inr (0x1F900, init_state, 1)"
proof -
  have enc: "encode_step init_state 0x1F600
               = ([0xBD, 0xA0], snd (encode_step init_state 0x1F600))"
    by code_simp
  have dec: "decode_step init_state 0xBD [0xA0]
               = Inr (0x1F900, fst (snd (projr (decode_step init_state 0xBD [0xA0]))),
                      snd (snd (projr (decode_step init_state 0xBD [0xA0]))))"
    by code_simp
  have pre: "inRanges 0x1F600 rangesExtra" "\<not> (fst rangeHK \<le> (0x1F600::int) \<and> 0x1F600 < snd rangeHK)"
    "\<not> (fst rangeHK \<le> (0x1F900::int) \<and> 0x1F900 < snd rangeHK)"
    "uint (0xBD::byte) AND markerAux \<noteq> markerAux" "uint (0xBD::byte) AND markerExtra = markerExtra"
    by (simp_all add: rangesExtra_def rangeHK_def markerAux_def markerExtra_def)
  from extra_frame [of "0x1F600" init_state "[0xBD, 0xA0]" "snd (encode_step init_state 0x1F600)"
      "0xBD" "[0xA0]" "0x1F900" "fst (snd (projr (decode_step init_state 0xBD [0xA0])))"
      "snd (snd (projr (decode_step init_state 0xBD [0xA0])))"] enc dec pre
  have "snd (encode_step init_state 0x1F600) = init_state"
    and "fst (snd (projr (decode_step init_state 0xBD [0xA0]))) = init_state"
    and "snd (snd (projr (decode_step init_state 0xBD [0xA0]))) = 1"
    by blast+
  with enc dec show ?thesis by simp
qed

section \<open>Properties of the decoder\<close>

lemma decode_step_truncated:
  "length rest < continuation_bytes st b \<Longrightarrow> decode_step st b rest = Inl IndexOutOfRange"
  by (auto simp add: decode_step_def continuation_bytes_def Let_def
      split: if_splits list.splits)

lemma decode_step_more:
  "decode_step st b rest = Inr (cp, st', n) \<Longrightarrow>
     n \<le> length rest \<and> decode_step st b (rest @ xs) = Inr (cp, st', n)"
  by (auto simp add: decode_step_def Let_def split: if_splits list.splits)

lemma decode_loop_append:
  "decode_loop st str pre = Inr (str', st') \<Longrightarrow>
     decode_loop st str (pre @ xs) = decode_loop st' str' xs"
proof (induction st str pre rule: decode_loop.induct)
  case (1 st str)
  then show ?case by simp
next
  case (2 st str b rest)
  from "2.prems" obtain cp st1 n where step: "decode_step st b rest = Inr (cp, st1, n)"
    by (auto split: sum.splits)
  with "2.prems"
  have run: "decode_loop st1 (str @ [string_of_rune (rune cp)]) (drop n rest) = Inr (str', st')"
    by simp
  from step have n: "n \<le> length rest" and more: "decode_step st b (rest @ xs) = Inr (cp, st1, n)"
    using decode_step_more by blast+
  have "decode_loop st1 (str @ [string_of_rune (rune cp)]) (drop n rest @ xs)
          = decode_loop st' str' xs"
    using "2.IH" [OF step refl refl run] .
  then show ?case
    using more n by simp
qed

lemma decode_step_enough:
  "continuation_bytes st b \<le> length rest \<Longrightarrow> \<exists>r. decode_step st b rest = Inr r"
  by (auto simp add: decode_step_def continuation_bytes_def Let_def
      split: if_splits list.splits)

lemma markerAux_shape: "markerAux = push_bit 6 (mask 2)"
  by (simp add: markerAux_def mask_eq_exp_minus_1 push_bit_eq_mult)

lemma markerExtra_shape: "markerExtra = push_bit 7 1 OR push_bit 4 (mask 2)"
  by (simp add: markerExtra_def mask_eq_exp_minus_1 push_bit_eq_mult)

text \<open>
  On a leading byte that passes the decoder's test for the extra ranges, clearing the
  marker with \<open>XOR\<close> leaves the low nibble.
\<close>

lemma extra_index:
  fixes b :: byte
  assumes "uint b AND markerAux \<noteq> markerAux" and "uint b AND markerExtra = markerExtra"
  shows "uint b XOR markerExtra = uint b AND 0x0F"
proof -
  have marked: "bit (uint b) n" if "bit markerExtra n" for n
  proof -
    have "bit (uint b AND markerExtra) n"
      using assms(2) that by simp
    then show ?thesis
      by (simp add: bit_and_iff)
  qed
  have b7: "bit (uint b) 7" and b5: "bit (uint b) 5" and b4: "bit (uint b) 4"
    by (rule marked, simp add: markerExtra_def)+
  have b6: "\<not> bit (uint b) 6"
  proof
    assume b6: "bit (uint b) 6"
    have "uint b AND markerAux = markerAux"
      unfolding markerAux_shape
    proof (rule bit_eqI)
      fix n :: nat
      consider "n < 6" | "n = 6" | "n = 7" | "8 \<le> n"
        by linarith
      then show "bit (uint b AND push_bit 6 (mask 2)) n \<longleftrightarrow> bit (push_bit 6 (mask 2) :: int) n"
        using b6 b7 by cases (auto simp add: bit_simps)
    qed
    with assms(1) show False by simp
  qed
  have b128: "bit (128::int) n \<longleftrightarrow> n = 7" for n
    using bit_exp_iff [of 7 n, where ?'a = int] by simp
  have low: "(0x0F::int) = mask 4"
    by (simp add: mask_eq_exp_minus_1)
  show ?thesis
    unfolding markerExtra_shape low
  proof (rule bit_eqI)
    fix n :: nat
    consider "n < 4" | "n = 4" | "n = 5" | "n = 6" | "n = 7" | "8 \<le> n"
      by linarith
    then show "bit (uint b XOR (push_bit 7 1 OR push_bit 4 (mask 2))) n
                 \<longleftrightarrow> bit (uint b AND mask 4) n"
      using b4 b5 b6 b7 by cases (auto simp add: bit_simps b128 dest: bit_imp_le_length)
  qed
qed

lemma rune_minus_one: "string_of_rune (rune (- 1)) = 0xFFFD"
  by (simp add: rune_def string_of_rune_def)

text \<open>
  C9 (truncated input). Let \<open>pre\<close> be bytes that \<open>Decode\<close> consumes completely,
  ending in the state \<open>st\<close>, and let the next byte \<open>b\<close> be followed by fewer bytes
  than its variant reads in that state (a 13-bit switch, a 21-bit switch, an extra
  sequence, or a byte of the current window in 21-bit mode). Then \<open>Decode\<close> does
  not return a string: it fails, with Go's run-time error for an index out of range.
\<close>

theorem Decode_truncated:
  assumes "decode_loop init_state [] pre = Inr (str, st)"
    and "length rest < continuation_bytes st b"
  shows "Decode (pre @ b # rest) = Inl IndexOutOfRange"
proof -
  have "decode_loop init_state [] (pre @ b # rest) = decode_loop st str (b # rest)"
    using assms(1) by (rule decode_loop_append)
  also have "\<dots> = Inl IndexOutOfRange"
    using assms(2) by (simp add: decode_step_truncated)
  finally show ?thesis
    by (simp add: Decode_def)
qed

theorem Decode_truncated_witness:
  "Decode [0x41, 0xA0, 0xD8, 0x00, 0x12] = Inl IndexOutOfRange \<and>
   Decode [0x41, 0xA0, 0xD8, 0x00, 0xA1, 0x00] = Inl IndexOutOfRange"
proof -
  have pre: "decode_loop init_state [] [0x41, 0xA0, 0xD8, 0x00]
               = Inr ([0x41, 0x10000], \<lparr>offs = 0x8000, auxOffs = 0, is21Bit = True\<rparr>)"
    by code_simp
  have base: "length ([]::byte list)
                < continuation_bytes \<lparr>offs = 0x8000, auxOffs = 0, is21Bit = True\<rparr> 0x12"
    and switch: "length [0x00::byte]
                < continuation_bytes \<lparr>offs = 0x8000, auxOffs = 0, is21Bit = True\<rparr> 0xA1"
    by (simp_all add: continuation_bytes_def markerAux_def markerExtra_def marker21Bit_def
        marker13Bit_def)
  from Decode_truncated [OF pre base] Decode_truncated [OF pre switch]
  show ?thesis by simp
qed

text \<open>
  C10 (uncovered index of the extra ranges). When the leading byte \<open>b\<close> is one of the
  extra ranges, a second byte \<open>b2\<close> is present and \<open>decodeRanges\<close> returns \<open>-1\<close> for
  the index \<open>((b AND 0x0F) << 8) OR b2\<close>, the iteration is no error: it yields
  \<open>-1\<close>, leaves the state as it is and consumes the two bytes; the loop appends
  U+FFFD, the conversion \<open>string(rune(-1))\<close>, and goes on with the remaining bytes.
\<close>

theorem extra_uncovered:
  assumes "uint b AND markerAux \<noteq> markerAux" and "uint b AND markerExtra = markerExtra"
    and "decodeRanges (push_bit 8 (uint b AND 0x0F) OR uint b2) rangesExtra = - 1"
  shows "decode_step st b (b2 # rest) = Inr (- 1, st, 1) \<and>
         decode_loop st str (b # b2 # rest) = decode_loop st (str @ [0xFFFD]) rest"
proof -
  have "decodeRanges (push_bit 8 (uint b XOR markerExtra) OR uint b2) rangesExtra = - 1"
    using assms(3) by (simp add: extra_index [OF assms(1,2)])
  with assms(1,2) have step: "decode_step st b (b2 # rest) = Inr (- 1, st, 1)"
    by (simp add: decode_step_def Let_def rangeHK_def)
  then show ?thesis
    by (simp add: rune_minus_one)
qed

theorem extra_uncovered_witness:
  "decode_step init_state 0xBF [0xFF, 0x41] = Inr (- 1, init_state, 1) \<and>
   Decode [0xBF, 0xFF, 0x41] = Inr [0xFFFD, 0x41]"
proof -
  have aux: "uint (0xBF::byte) AND markerAux \<noteq> markerAux"
    by (simp add: markerAux_def)
  have extra: "uint (0xBF::byte) AND markerExtra = markerExtra"
    by (simp add: markerExtra_def)
  have uncovered:
    "decodeRanges (push_bit 8 (uint (0xBF::byte) AND 0x0F) OR uint (0xFF::byte)) rangesExtra = - 1"
    by (simp add: rangesExtra_def rangeHK_def)
  have tail: "decode_loop init_state ([] @ [0xFFFD]) [0x41] = Inr ([0xFFFD, 0x41], init_state)"
    by code_simp
  from extra_uncovered [OF aux extra uncovered, where st = init_state and str = "[]" and rest = "[0x41]"]
  have step: "decode_step init_state 0xBF [0xFF, 0x41] = Inr (- 1, init_state, 1)"
    and loop: "decode_loop init_state [] [0xBF, 0xFF, 0x41] = decode_loop init_state ([] @ [0xFFFD]) [0x41]"
    by blast+
  have "Decode [0xBF, 0xFF, 0x41] = Inr [0xFFFD, 0x41]"
    unfolding Decode_def loop tail by simp
  with step show ?thesis by simp
qed

section \<open>Round trip\<close>

text \<open>
  C1 (round trip) does not hold of the code. The encoder writes the leading byte of
  an extra sequence as \<open>0xB0 OR (1 + index >> 8)\<close>, and the decoder takes the low
  nibble as it is, without subtracting the \<open>1\<close>: U+1F600 is encoded to
  \<open>[0xBD, 0xA0]\<close> and decoded to U+1F900. And the decoder takes the leading byte
  \<open>0xB0\<close>, which the 21-bit switch emits from U+102800 on, for an extra sequence.
\<close>

theorem roundtrip_fails:
  "Encode [0x1F600] = [0xBD, 0xA0] \<and> Decode (Encode [0x1F600]) = Inr [0x1F900] \<and>
   Encode [0x102800] = [0xB0, 0x00, 0x00] \<and> Decode (Encode [0x102800]) = Inr [0x2000, 0x0000]"
  by code_simp

end
